theory Spec2Isabelle
  imports Main "HOL-Library.Word"
begin

section \<open>Data model\<close>

text \<open>
  A node is a Go struct holding one byte slice. Integers are the source's uint16 and
  uint64, so every sum and product below wraps around as it does in Go. A slice is
  modelled by its elements; its capacity is taken to be its length, which is what
  \<^verbatim>\<open>make([]byte, k)\<close> produces at every allocation site of the source.
\<close>

type_synonym byte = "8 word"
type_synonym u16 = "16 word"
type_synonym u64 = "64 word"

datatype BNode = BNode (data: "byte list")

text \<open>
  Every panic of the source is a value. \<open>RuntimeBounds\<close> is the Go runtime's own panic
  for a slice expression or an index out of range; the others are the explicit
  \<^verbatim>\<open>panic(...)\<close> calls, one constructor per call site.
\<close>

datatype panic =
    RuntimeBounds
  | GetPointerPanic
  | SetPointerPanic
  | OffsetPositionPanic
  | GetKeyPanic
  | GetValuePanic
  | AppendRangeDstPanic
  | AppendRangeSrcPanic
  | NodeSplit3Panic
  | BadNodeTypePanic

definition bindE :: "panic + 'a \<Rightarrow> ('a \<Rightarrow> panic + 'b) \<Rightarrow> panic + 'b" where
  "bindE m f = (case m of Inl e \<Rightarrow> Inl e | Inr x \<Rightarrow> f x)"

definition BNODE_NODE :: u16 where "BNODE_NODE = 1"
definition BNODE_LEAF :: u16 where "BNODE_LEAF = 2"
definition HEADER :: u16 where "HEADER = 4"
definition BTREE_PAGE_SIZE :: nat where "BTREE_PAGE_SIZE = 4096"
definition BTREE_MAX_KEY_SIZE :: nat where "BTREE_MAX_KEY_SIZE = 1000"
definition BTREE_MAX_VALUE_SIZE :: nat where "BTREE_MAX_VALUE_SIZE = 3000"

subsection \<open>Slices and little-endian integers\<close>

text \<open>The slice expressions \<^verbatim>\<open>s[lo:]\<close>, \<^verbatim>\<open>s[:hi]\<close> and \<^verbatim>\<open>s[lo:hi]\<close>.\<close>

definition sliceFrom :: "byte list \<Rightarrow> nat \<Rightarrow> panic + byte list" where
  "sliceFrom s lo = (if lo \<le> length s then Inr (drop lo s) else Inl RuntimeBounds)"

definition sliceTo :: "byte list \<Rightarrow> nat \<Rightarrow> panic + byte list" where
  "sliceTo s hi = (if hi \<le> length s then Inr (take hi s) else Inl RuntimeBounds)"

definition sliceRange :: "byte list \<Rightarrow> nat \<Rightarrow> nat \<Rightarrow> panic + byte list" where
  "sliceRange s lo hi =
     (if lo \<le> hi \<and> hi \<le> length s then Inr (take (hi - lo) (drop lo s))
      else Inl RuntimeBounds)"

text \<open>
  A write through a sub-slice changes the buffer it was cut from: \<open>writeFrom s lo w\<close>
  is \<^verbatim>\<open>w(s[lo:])\<close> and \<open>writeRange s lo hi w\<close> is \<^verbatim>\<open>w(s[lo:hi])\<close>, each returning
  the whole buffer afterwards.
\<close>

definition writeFrom ::
  "byte list \<Rightarrow> nat \<Rightarrow> (byte list \<Rightarrow> panic + byte list) \<Rightarrow> panic + byte list" where
  "writeFrom s lo w =
     bindE (sliceFrom s lo) (\<lambda>b. bindE (w b) (\<lambda>b'. Inr (take lo s @ b')))"

definition writeRange ::
  "byte list \<Rightarrow> nat \<Rightarrow> nat \<Rightarrow> (byte list \<Rightarrow> panic + byte list) \<Rightarrow> panic + byte list" where
  "writeRange s lo hi w =
     bindE (sliceRange s lo hi) (\<lambda>b. bindE (w b) (\<lambda>b'. Inr (take lo s @ b' @ drop hi s)))"

text \<open>\<^verbatim>\<open>binary.LittleEndian\<close>: the least significant byte comes first.\<close>

fun le_val :: "byte list \<Rightarrow> nat" where
  "le_val [] = 0"
| "le_val (b # bs) = unat b + 256 * le_val bs"

fun le_bytes :: "nat \<Rightarrow> nat \<Rightarrow> byte list" where
  "le_bytes 0 v = []"
| "le_bytes (Suc k) v = of_nat (v mod 256) # le_bytes k (v div 256)"

definition Uint16 :: "byte list \<Rightarrow> panic + u16" where
  "Uint16 b = (if length b < 2 then Inl RuntimeBounds else Inr (of_nat (le_val (take 2 b))))"

definition Uint64 :: "byte list \<Rightarrow> panic + u64" where
  "Uint64 b = (if length b < 8 then Inl RuntimeBounds else Inr (of_nat (le_val (take 8 b))))"

definition PutUint16 :: "byte list \<Rightarrow> u16 \<Rightarrow> panic + byte list" where
  "PutUint16 b v =
     (if length b < 2 then Inl RuntimeBounds else Inr (le_bytes 2 (unat v) @ drop 2 b))"

definition PutUint64 :: "byte list \<Rightarrow> u64 \<Rightarrow> panic + byte list" where
  "PutUint64 b v =
     (if length b < 8 then Inl RuntimeBounds else Inr (le_bytes 8 (unat v) @ drop 8 b))"

text \<open>The builtin \<^verbatim>\<open>copy(dst, src)\<close>; the result is \<open>dst\<close> afterwards.\<close>

definition copy :: "byte list \<Rightarrow> byte list \<Rightarrow> byte list" where
  "copy dst src =
     take (min (length dst) (length src)) src @ drop (min (length dst) (length src)) dst"

subsection \<open>Node accessors\<close>

definition getNodeType :: "BNode \<Rightarrow> panic + u16" where
  "getNodeType bnode = Uint16 (data bnode)"

definition getNumberOfKeys :: "BNode \<Rightarrow> panic + u16" where
  "getNumberOfKeys bnode = bindE (sliceRange (data bnode) 2 4) Uint16"

definition setHeaders :: "BNode \<Rightarrow> u16 \<Rightarrow> u16 \<Rightarrow> panic + BNode" where
  "setHeaders bnode nodeType numberOfKeys =
     bindE (writeRange (data bnode) 0 2 (\<lambda>b. PutUint16 b nodeType)) (\<lambda>d1.
     bindE (writeRange d1 2 4 (\<lambda>b. PutUint16 b numberOfKeys)) (\<lambda>d2.
     Inr (BNode d2)))"

definition getPointer :: "BNode \<Rightarrow> u16 \<Rightarrow> panic + u64" where
  "getPointer bnode index =
     bindE (getNumberOfKeys bnode) (\<lambda>nkeys.
     if index \<ge> nkeys then Inl GetPointerPanic
     else let pos = HEADER + 8 * index
          in bindE (sliceFrom (data bnode) (unat pos)) Uint64)"

definition setPointer :: "BNode \<Rightarrow> u16 \<Rightarrow> u64 \<Rightarrow> panic + BNode" where
  "setPointer bnode index val =
     bindE (getNumberOfKeys bnode) (\<lambda>nkeys.
     if index \<ge> nkeys then Inl SetPointerPanic
     else let pos = HEADER + 8 * index
          in bindE (writeFrom (data bnode) (unat pos) (\<lambda>b. PutUint64 b val)) (\<lambda>d.
             Inr (BNode d)))"

definition offsetPosition :: "BNode \<Rightarrow> u16 \<Rightarrow> panic + u16" where
  "offsetPosition bnode index =
     bindE (getNumberOfKeys bnode) (\<lambda>nkeys.
     if index > nkeys \<or> index < 1 then Inl OffsetPositionPanic
     else Inr (HEADER + 8 * nkeys + (2 * (index - 1))))"

definition getOffset :: "BNode \<Rightarrow> u16 \<Rightarrow> panic + u16" where
  "getOffset bnode index =
     (if index = 0 then Inr 0
      else bindE (offsetPosition bnode index) (\<lambda>pos.
           bindE (sliceFrom (data bnode) (unat pos)) Uint16))"

definition setOffset :: "BNode \<Rightarrow> u16 \<Rightarrow> u16 \<Rightarrow> panic + BNode" where
  "setOffset bnode index offset =
     bindE (offsetPosition bnode index) (\<lambda>pos.
     bindE (writeFrom (data bnode) (unat pos) (\<lambda>b. PutUint16 b offset)) (\<lambda>d.
     Inr (BNode d)))"

definition getKeyValuePosition :: "BNode \<Rightarrow> u16 \<Rightarrow> panic + u16" where
  "getKeyValuePosition bnode index =
     bindE (getOffset bnode index) (\<lambda>offset.
     bindE (getNumberOfKeys bnode) (\<lambda>nkeys.
     Inr (HEADER + 8 * nkeys + (2 * nkeys - 1) + offset)))"

definition getKey :: "BNode \<Rightarrow> u16 \<Rightarrow> panic + byte list" where
  "getKey bnode index =
     bindE (getNumberOfKeys bnode) (\<lambda>nkeys.
     if index \<ge> nkeys then Inl GetKeyPanic
     else bindE (getKeyValuePosition bnode index) (\<lambda>kvPos.
          bindE (bindE (sliceFrom (data bnode) (unat kvPos)) Uint16) (\<lambda>keylen.
          bindE (sliceFrom (data bnode) (unat (kvPos + 4))) (\<lambda>s.
          sliceTo s (unat keylen)))))"

definition getValue :: "BNode \<Rightarrow> u16 \<Rightarrow> panic + byte list" where
  "getValue bnode index =
     bindE (getNumberOfKeys bnode) (\<lambda>nkeys.
     if index \<ge> nkeys then Inl GetValuePanic
     else bindE (getKeyValuePosition bnode index) (\<lambda>kvPos.
          bindE (bindE (sliceFrom (data bnode) (unat kvPos)) Uint16) (\<lambda>keylen.
          bindE (bindE (sliceFrom (data bnode) (unat (kvPos + 2))) Uint16) (\<lambda>valueLen.
          bindE (sliceFrom (data bnode) (unat (kvPos + 4 + keylen))) (\<lambda>s.
          sliceTo s (unat valueLen))))))"

definition nbytes :: "BNode \<Rightarrow> panic + u16" where
  "nbytes bnode = bindE (getNumberOfKeys bnode) (\<lambda>nkeys. getKeyValuePosition bnode nkeys)"

subsection \<open>Appending records\<close>

text \<open>
  The mutators write into the buffer of their argument \<open>new\<close>; the model returns that
  buffer afterwards. At every call site of the source \<open>new\<close> is a fresh buffer, so it
  never shares storage with \<open>old\<close>.

  The two loops and the guard of \<open>bnodeAppendRange\<close>. The counters are uint16: the first
  loop stops at \<open>i = n\<close>; the second runs while \<open>i \<le> n\<close>, which for \<open>n = 65535\<close> always
  holds, and then ends only when \<open>setOffset\<close> panics at slot 0.
\<close>

function appendRange_pointers ::
  "BNode \<Rightarrow> BNode \<Rightarrow> u16 \<Rightarrow> u16 \<Rightarrow> u16 \<Rightarrow> u16 \<Rightarrow> panic + BNode" where
  "appendRange_pointers new old dstNew srcOld n i =
     (if i < n then
        (case getPointer old (srcOld + i) of
           Inl e \<Rightarrow> Inl e
         | Inr p \<Rightarrow>
            (case setPointer new (dstNew + i) p of
               Inl e \<Rightarrow> Inl e
             | Inr new' \<Rightarrow> appendRange_pointers new' old dstNew srcOld n (i + 1)))
      else Inr new)"
  by pat_completeness auto
termination
proof (relation "measure (\<lambda>(new, old, dstNew, srcOld, n, i). unat n - unat i)")
  show "wf (measure (\<lambda>(new, old, dstNew, srcOld, n, i). unat n - unat i))"
    by simp
next
  fix new old :: BNode and dstNew srcOld n i :: u16 and p :: u64 and new' :: BNode
  assume "i < n"
  then have "unat i < unat n"
    by (simp add: word_less_nat_alt)
  moreover from this have "unat (i + 1) = unat i + 1"
    using unsigned_less [of n, where 'a = nat] by (simp add: unat_word_ariths)
  ultimately show "((new', old, dstNew, srcOld, n, i + 1), (new, old, dstNew, srcOld, n, i))
      \<in> measure (\<lambda>(new, old, dstNew, srcOld, n, i). unat n - unat i)"
    by simp
qed

function appendRange_offsets ::
  "BNode \<Rightarrow> BNode \<Rightarrow> u16 \<Rightarrow> u16 \<Rightarrow> u16 \<Rightarrow> u16 \<Rightarrow> u16 \<Rightarrow> u16 \<Rightarrow> panic + BNode" where
  "appendRange_offsets new old dstNew srcOld n dstBegin srcBegin i =
     (if i \<le> n then
        (case getOffset old (srcOld + i) of
           Inl e \<Rightarrow> Inl e
         | Inr off \<Rightarrow>
            (case setOffset new (dstNew + i) (dstBegin + off - srcBegin) of
               Inl e \<Rightarrow> Inl e
             | Inr new' \<Rightarrow>
                 appendRange_offsets new' old dstNew srcOld n dstBegin srcBegin (i + 1)))
      else Inr new)"
  by pat_completeness auto
termination
proof (relation "measure (\<lambda>(new, old, dstNew, srcOld, n, dstBegin, srcBegin, i).
                            unat (- (dstNew + i)))")
  show "wf (measure (\<lambda>(new, old, dstNew, srcOld, n, dstBegin, srcBegin, i).
                            unat (- (dstNew + i))))"
    by simp
next
  fix new old :: BNode and dstNew srcOld n dstBegin srcBegin i off :: u16 and new' :: BNode
  assume ok: "setOffset new (dstNew + i) (dstBegin + off - srcBegin) = Inr new'"
  have nz: "dstNew + i \<noteq> 0"
  proof
    assume "dstNew + i = 0"
    with ok show False
      by (simp add: setOffset_def offsetPosition_def bindE_def split: sum.splits)
  qed
  then have "- (dstNew + i) \<noteq> 0"
    by (simp only: neg_equal_0_iff_equal not_False_eq_True)
  then have "unat (- (dstNew + i) - 1) < unat (- (dstNew + i))"
    using unat_minus_one [of "- (dstNew + i)"] unat_gt_0 [of "- (dstNew + i)"]
    by linarith
  moreover have "- (dstNew + (i + 1)) = - (dstNew + i) - 1"
    by simp
  ultimately have "unat (- (dstNew + (i + 1))) < unat (- (dstNew + i))"
    by (simp only:)
  then show "((new', old, dstNew, srcOld, n, dstBegin, srcBegin, i + 1),
           (new, old, dstNew, srcOld, n, dstBegin, srcBegin, i))
      \<in> measure (\<lambda>(new, old, dstNew, srcOld, n, dstBegin, srcBegin, i).
                    unat (- (dstNew + i)))"
    by (simp only: in_measure prod.case)
qed

definition bnodeAppendRange :: "BNode \<Rightarrow> BNode \<Rightarrow> u16 \<Rightarrow> u16 \<Rightarrow> u16 \<Rightarrow> panic + BNode" where
  "bnodeAppendRange new old dstNew srcOld n =
     (if dstNew + n > n then Inl AppendRangeDstPanic
      else if srcOld + n > n then Inl AppendRangeSrcPanic
      else if n = 0 then Inr new
      else
        bindE (appendRange_pointers new old dstNew srcOld n 0) (\<lambda>new1.
        bindE (getOffset new1 dstNew) (\<lambda>dstBegin.
        bindE (getOffset old srcOld) (\<lambda>srcBegin.
        bindE (appendRange_offsets new1 old dstNew srcOld n dstBegin srcBegin 1) (\<lambda>new2.
        bindE (getKeyValuePosition old srcOld) (\<lambda>kvBegin.
        bindE (getKeyValuePosition old (srcOld + n)) (\<lambda>kvEnd.
        bindE (getKeyValuePosition new2 dstNew) (\<lambda>dstPos.
        bindE (sliceFrom (data new2) (unat dstPos)) (\<lambda>dst.
        bindE (sliceRange (data old) (unat kvBegin) (unat kvEnd)) (\<lambda>src.
        Inr (BNode (take (unat dstPos) (data new2) @ copy dst src))))))))))))"

definition bnodeAppendKV ::
  "BNode \<Rightarrow> u64 \<Rightarrow> byte list \<Rightarrow> byte list \<Rightarrow> u16 \<Rightarrow> panic + BNode" where
  "bnodeAppendKV new pointer key val index =
     bindE (setPointer new index pointer) (\<lambda>new1.
     bindE (getKeyValuePosition new1 index) (\<lambda>pos.
     bindE (writeFrom (data new1) (unat pos)
              (\<lambda>b. PutUint16 b (of_nat (length key)))) (\<lambda>d2.
     bindE (writeFrom d2 (unat (pos + 2))
              (\<lambda>b. PutUint16 b (of_nat (length val)))) (\<lambda>d3.
     bindE (writeFrom d3 (unat (pos + 4)) (\<lambda>b. Inr (copy b key))) (\<lambda>d4.
     bindE (writeFrom d4 (unat (pos + 4 + of_nat (length key)))
              (\<lambda>b. Inr (copy b val))) (\<lambda>d5.
     bindE (getOffset (BNode d5) index) (\<lambda>off.
     setOffset (BNode d5) (index + 1)
       (off + 4 + of_nat (length key + length val)))))))))"

subsection \<open>Lookup\<close>

text \<open>\<^verbatim>\<open>bytes.Compare\<close>: \<open>-1\<close>, \<open>0\<close> or \<open>1\<close> by the byte-lexicographic order.\<close>

fun Compare :: "byte list \<Rightarrow> byte list \<Rightarrow> int" where
  "Compare [] [] = 0"
| "Compare [] (y # ys) = - 1"
| "Compare (x # xs) [] = 1"
| "Compare (x # xs) (y # ys) =
     (if x < y then - 1 else if y < x then 1 else Compare xs ys)"

function nodeLookUp_loop ::
  "BNode \<Rightarrow> byte list \<Rightarrow> u16 \<Rightarrow> u16 \<Rightarrow> u16 \<Rightarrow> panic + u16" where
  "nodeLookUp_loop node key nKeys i found =
     (if i < nKeys then
        (case getKey node i of
           Inl e \<Rightarrow> Inl e
         | Inr k \<Rightarrow>
            (let c = Compare k key
             in if c \<le> 0 then nodeLookUp_loop node key nKeys (i + 1) i
                else if c > 0 then Inr found
                else nodeLookUp_loop node key nKeys (i + 1) found))
      else Inr found)"
  by pat_completeness auto
termination
proof (relation "measure (\<lambda>(node, key, nKeys, i, found). unat nKeys - unat i)")
  show "wf (measure (\<lambda>(node, key, nKeys, i, found). unat nKeys - unat i))"
    by simp
next
  fix node :: BNode and key :: "byte list" and nKeys i found :: u16
  assume "i < nKeys"
  then have lt: "unat i < unat nKeys"
    by (simp add: word_less_nat_alt)
  then have "unat (i + 1) = unat i + 1"
    using unsigned_less [of nKeys, where 'a = nat] by (simp add: unat_word_ariths)
  with lt show "((node, key, nKeys, i + 1, i), (node, key, nKeys, i, found))
      \<in> measure (\<lambda>(node, key, nKeys, i, found). unat nKeys - unat i)"
    by simp
  from lt \<open>unat (i + 1) = unat i + 1\<close>
  show "((node, key, nKeys, i + 1, found), (node, key, nKeys, i, found))
      \<in> measure (\<lambda>(node, key, nKeys, i, found). unat nKeys - unat i)"
    by simp
qed

definition nodeLookUp :: "BNode \<Rightarrow> byte list \<Rightarrow> panic + u16" where
  "nodeLookUp node key =
     bindE (getNumberOfKeys node) (\<lambda>nKeys. nodeLookUp_loop node key nKeys 1 0)"

text \<open>
  What the specification says of the result of a lookup, in its own words: \<open>r\<close> is the
  largest index in \<open>1 .. keyCount - 1\<close> whose key is at most the target under
  \<open>Compare\<close>, and \<open>0\<close> if there is no such index. \<open>key_le node i key\<close> says that the key
  at \<open>i\<close> can be read and is at most \<open>key\<close>.
\<close>

definition key_le :: "BNode \<Rightarrow> u16 \<Rightarrow> byte list \<Rightarrow> bool" where
  "key_le node i key = (case getKey node i of Inl e \<Rightarrow> False | Inr k \<Rightarrow> Compare k key \<le> 0)"

definition lookup_spec :: "BNode \<Rightarrow> byte list \<Rightarrow> u16 \<Rightarrow> bool" where
  "lookup_spec node key r =
     (case getNumberOfKeys node of
        Inl e \<Rightarrow> False
      | Inr n \<Rightarrow>
          (r = 0 \<or> (1 \<le> r \<and> r < n \<and> key_le node r key))
          \<and> list_all (\<lambda>i. \<not> key_le node (of_nat i) key) [Suc (unat r) ..< unat n])"

text \<open>
  The keys at the indices \<open>1 .. keyCount - 1\<close> can all be read and do not decrease.
\<close>

definition keys_ascending :: "BNode \<Rightarrow> bool" where
  "keys_ascending node =
     (case getNumberOfKeys node of
        Inl e \<Rightarrow> False
      | Inr n \<Rightarrow>
          list_all (\<lambda>i. list_all (\<lambda>j.
             case (getKey node (of_nat i), getKey node (of_nat j)) of
               (Inr a, Inr b) \<Rightarrow> Compare a b \<le> 0
             | _ \<Rightarrow> False) [i ..< unat n]) [1 ..< unat n])"

subsection \<open>Leaf mutators\<close>

definition leafInsert ::
  "BNode \<Rightarrow> BNode \<Rightarrow> u16 \<Rightarrow> byte list \<Rightarrow> byte list \<Rightarrow> panic + BNode" where
  "leafInsert old new index key val =
     bindE (getNumberOfKeys old) (\<lambda>nkeys.
     bindE (setHeaders new BNODE_LEAF (nkeys + 1)) (\<lambda>new1.
     bindE (bnodeAppendRange new1 old 0 0 index) (\<lambda>new2.
     bindE (bnodeAppendKV new2 0 key val index) (\<lambda>new3.
     bindE (getNumberOfKeys old) (\<lambda>nkeys'.
     bnodeAppendRange new3 old (index + 1) index (nkeys' - index))))))"

definition leafUpdate ::
  "BNode \<Rightarrow> BNode \<Rightarrow> u16 \<Rightarrow> byte list \<Rightarrow> byte list \<Rightarrow> panic + BNode" where
  "leafUpdate old new index key val =
     bindE (getNumberOfKeys old) (\<lambda>nkeys.
     bindE (setHeaders new BNODE_LEAF nkeys) (\<lambda>new1.
     bindE (bnodeAppendRange new1 old 0 0 index) (\<lambda>new2.
     bindE (bnodeAppendKV new2 0 key val index) (\<lambda>new3.
     bindE (getNumberOfKeys old) (\<lambda>nkeys'.
     bnodeAppendRange new3 old (index + 1) (index + 1) (nkeys' - (index + 1)))))))"

subsection \<open>Splitting\<close>

definition nodeSplit2 :: "BNode \<Rightarrow> BNode \<Rightarrow> BNode \<Rightarrow> panic + (BNode \<times> BNode)" where
  "nodeSplit2 left right old =
     bindE (getNumberOfKeys old) (\<lambda>nKeys.
     bindE (getNodeType old) (\<lambda>nodeType.
     bindE (setHeaders left nodeType (nKeys div 2)) (\<lambda>left1.
     bindE (bnodeAppendRange left1 old 0 0 (nKeys div 2)) (\<lambda>left2.
     bindE (bnodeAppendRange right old 0 ((nKeys div 2) + 1) nKeys) (\<lambda>right1.
     Inr (left2, right1))))))"

text \<open>
  \<open>nodeSplit3\<close> returns the count and the three-element array; a slot that is not used
  holds the zero node, whose slice is nil. The reslice \<^verbatim>\<open>data[:BTREE_PAGE_SIZE]\<close> sets the
  length to one page; in Go the capacity of the buffer stays what it was. Here, where the
  capacity is the length, the fragment is cut to one page, so reading a record that
  reaches past the page of a returned fragment is a \<open>RuntimeBounds\<close> in the model.
\<close>

definition nodeSplit3 :: "BNode \<Rightarrow> panic + (u16 \<times> BNode list)" where
  "nodeSplit3 old =
     bindE (nbytes old) (\<lambda>sz.
     if unat sz \<le> BTREE_PAGE_SIZE then
       bindE (sliceTo (data old) BTREE_PAGE_SIZE) (\<lambda>d.
       Inr (1, [BNode d, BNode [], BNode []]))
     else
       let left = BNode (replicate (2 * BTREE_PAGE_SIZE) 0);
           right = BNode (replicate BTREE_PAGE_SIZE 0)
       in bindE (nodeSplit2 left right old) (\<lambda>(left1, right1).
          bindE (nbytes left1) (\<lambda>lsz.
          if unat lsz \<le> BTREE_PAGE_SIZE then
            bindE (sliceTo (data left1) BTREE_PAGE_SIZE) (\<lambda>d.
            Inr (2, [BNode d, right1, BNode []]))
          else
            let leftleft = BNode (replicate BTREE_PAGE_SIZE 0);
                middle = BNode (replicate BTREE_PAGE_SIZE 0)
            in bindE (nodeSplit2 leftleft middle left1) (\<lambda>(leftleft1, middle1).
               bindE (nbytes leftleft1) (\<lambda>llsz.
               if unat llsz > BTREE_PAGE_SIZE then Inl NodeSplit3Panic
               else Inr (3, [leftleft1, middle1, right1]))))))"

subsection \<open>The page store\<close>

text \<open>
  The tree holds three callbacks into the page store. The store's own state is a parameter
  \<open>'s\<close>; a callback takes it and returns it. Next to it the model keeps the list of the
  calls made so far, oldest first, so that the order of the calls can be stated.
\<close>

record 's BTree =
  tree_root :: u64
  tree_get :: "u64 \<Rightarrow> 's \<Rightarrow> BNode \<times> 's"
  tree_new :: "BNode \<Rightarrow> 's \<Rightarrow> u64 \<times> 's"
  tree_del :: "u64 \<Rightarrow> 's \<Rightarrow> 's"

datatype event = Get u64 | New BNode u64 | Del u64

type_synonym 's store = "'s \<times> event list"

definition call_get :: "'s BTree \<Rightarrow> u64 \<Rightarrow> 's store \<Rightarrow> BNode \<times> 's store" where
  "call_get tree p st =
     (case tree_get tree p (fst st) of (node, s') \<Rightarrow> (node, (s', snd st @ [Get p])))"

definition call_new :: "'s BTree \<Rightarrow> BNode \<Rightarrow> 's store \<Rightarrow> u64 \<times> 's store" where
  "call_new tree node st =
     (case tree_new tree node (fst st) of (p, s') \<Rightarrow> (p, (s', snd st @ [New node p])))"

definition call_del :: "'s BTree \<Rightarrow> u64 \<Rightarrow> 's store \<Rightarrow> 's store" where
  "call_del tree p st = (tree_del tree p (fst st), snd st @ [Del p])"

subsection \<open>Internal node mutators and the insert\<close>

text \<open>
  The loop of \<open>nodeReplaceKidN\<close> over the kids; \<open>i\<close> is the loop index. The arguments of
  \<open>bnodeAppendKV\<close> are evaluated left to right: the page is allocated, then the kid's
  first key is read.
\<close>

fun nodeReplaceKidN_loop ::
  "'s BTree \<Rightarrow> 's store \<Rightarrow> BNode \<Rightarrow> u16 \<Rightarrow> BNode list \<Rightarrow> nat \<Rightarrow> (panic + BNode) \<times> 's store" where
  "nodeReplaceKidN_loop tree st new idx [] i = (Inr new, st)"
| "nodeReplaceKidN_loop tree st new idx (node # kids) i =
     (case call_new tree node st of (p, st') \<Rightarrow>
       (case bindE (getKey node 0) (\<lambda>k. bnodeAppendKV new p k [] (idx + of_nat i)) of
          Inl e \<Rightarrow> (Inl e, st')
        | Inr new' \<Rightarrow> nodeReplaceKidN_loop tree st' new' idx kids (Suc i)))"

definition nodeReplaceKidN ::
  "'s BTree \<Rightarrow> 's store \<Rightarrow> BNode \<Rightarrow> BNode \<Rightarrow> u16 \<Rightarrow> BNode list \<Rightarrow> (panic + BNode) \<times> 's store" where
  "nodeReplaceKidN tree st new old idx kids =
     (let inc = (of_nat (length kids) :: u16)
      in case bindE (getNumberOfKeys old) (\<lambda>nkeys.
              bindE (setHeaders new BNODE_NODE (nkeys + inc - 1)) (\<lambda>new1.
              bnodeAppendRange new1 old 0 0 idx)) of
           Inl e \<Rightarrow> (Inl e, st)
         | Inr new2 \<Rightarrow>
            (case nodeReplaceKidN_loop tree st new2 idx kids 0 of
               (Inl e, st') \<Rightarrow> (Inl e, st')
             | (Inr new3, st') \<Rightarrow>
                 (bindE (getNumberOfKeys old) (\<lambda>nkeys.
                    bnodeAppendRange new3 old (idx + inc) (idx + 1) (nkeys - (idx + 1))),
                  st')))"

text \<open>
  \<open>treeInsert\<close> and \<open>nodeInsert\<close> call each other, once per level of the tree. The pages
  come from the store's \<open>get\<close>, so nothing bounds the depth: the first argument is the
  number of levels the descent may still enter, and \<open>None\<close> says it was used up.
\<close>

fun treeInsert ::
  "nat \<Rightarrow> 's BTree \<Rightarrow> 's store \<Rightarrow> BNode \<Rightarrow> byte list \<Rightarrow> byte list
     \<Rightarrow> ((panic + BNode) \<times> 's store) option"
and nodeInsert ::
  "nat \<Rightarrow> 's BTree \<Rightarrow> 's store \<Rightarrow> BNode \<Rightarrow> BNode \<Rightarrow> u16 \<Rightarrow> byte list \<Rightarrow> byte list
     \<Rightarrow> ((panic + BNode) \<times> 's store) option" where
  "treeInsert 0 tree st node key val = None"
| "treeInsert (Suc fuel) tree st node key val =
     (let new = BNode (replicate (2 * BTREE_PAGE_SIZE) 0)
      in case nodeLookUp node key of
           Inl e \<Rightarrow> Some (Inl e, st)
         | Inr index \<Rightarrow>
            (case getNodeType node of
               Inl e \<Rightarrow> Some (Inl e, st)
             | Inr nodeType \<Rightarrow>
                 if nodeType = BNODE_LEAF then
                   (case getKey node index of
                      Inl e \<Rightarrow> Some (Inl e, st)
                    | Inr k \<Rightarrow>
                        if key = k then Some (leafUpdate node new index key val, st)
                        else Some (leafInsert node new (index + 1) key val, st))
                 else if nodeType = BNODE_NODE then
                   nodeInsert fuel tree st new node index key val
                 else Some (Inl BadNodeTypePanic, st)))"
| "nodeInsert fuel tree st new node index key val =
     (case getPointer node index of
        Inl e \<Rightarrow> Some (Inl e, st)
      | Inr nodePointer \<Rightarrow>
         (case call_get tree nodePointer st of (child, st1) \<Rightarrow>
           (case treeInsert fuel tree (call_del tree nodePointer st1) child key val of
              None \<Rightarrow> None
            | Some (Inl e, st3) \<Rightarrow> Some (Inl e, st3)
            | Some (Inr child', st3) \<Rightarrow>
               (case nodeSplit3 child' of
                  Inl e \<Rightarrow> Some (Inl e, st3)
                | Inr (nsplit, splited) \<Rightarrow>
                    Some (nodeReplaceKidN tree st3 new node index
                            (take (unat nsplit) splited))))))"

subsection \<open>The atomic file write\<close>








subsection \<open>Scenario inputs\<close>

text \<open>
  The one-key leaf holding \<open>("a", "1")\<close>, written out in the layout the accessors read:
  header (type 2, one key), one zero pointer, the offset word at bytes 12 and 13, and
  the record from byte 13 on. Byte 13 is at once the high byte of the offset word and
  the low byte of the key length, because \<open>getKeyValuePosition\<close> starts the records
  one byte early. The buffer is one page long.
\<close>

definition leafA :: BNode where
  "leafA = BNode ([2, 0, 1, 0] @ replicate 8 0 @ [6, 1, 0, 1, 0, 97, 49] @ replicate 4077 0)"


text \<open>
  Scenario C: the leaf with the keys \<open>"a"\<close>, \<open>"b"\<close>, \<open>"c"\<close> and empty values. The three
  offset words are at bytes 28 to 33 and the records start at byte 33. \<open>leafAZB\<close> is the
  same page with the keys \<open>"a"\<close>, \<open>"z"\<close>, \<open>"b"\<close>, which are not in order.
\<close>

definition leafABC :: BNode where
  "leafABC = BNode ([2, 0, 3, 0] @ replicate 24 0 @ [5, 0, 10, 0, 15]
                    @ [1, 0, 0, 0, 97] @ [1, 0, 0, 0, 98] @ [1, 0, 0, 0, 99]
                    @ replicate 4048 0)"

definition leafAZB :: BNode where
  "leafAZB = BNode ([2, 0, 3, 0] @ replicate 24 0 @ [5, 0, 10, 0, 15]
                    @ [1, 0, 0, 0, 97] @ [1, 0, 0, 0, 122] @ [1, 0, 0, 0, 98]
                    @ replicate 4048 0)"

text \<open>The leaf with no key: header only, the rest of the page zero.\<close>

definition emptyLeaf :: BNode where
  "emptyLeaf = BNode ([2, 0, 0, 0] @ replicate 4092 0)"

text \<open>A fresh two-page buffer whose header already announces a leaf of two keys.\<close>

definition newLeaf2 :: BNode where
  "newLeaf2 = BNode ([2, 0, 2, 0] @ replicate 8188 0)"

text \<open>A page store without pages: every id reads as the empty leaf, every new page gets id 7.\<close>

definition nullTree :: "unit BTree" where
  "nullTree = \<lparr> tree_root = 0,
                tree_get = (\<lambda>p s. (emptyLeaf, s)),
                tree_new = (\<lambda>node s. (7, s)),
                tree_del = (\<lambda>p s. s) \<rparr>"

text \<open>A page store in which every id reads as the one-key leaf \<open>leafA\<close>.\<close>

definition leafTree :: "unit BTree" where
  "leafTree = \<lparr> tree_root = 0,
                tree_get = (\<lambda>p s. (leafA, s)),
                tree_new = (\<lambda>node s. (7, s)),
                tree_del = (\<lambda>p s. s) \<rparr>"

text \<open>A fresh working buffer of two pages, as \<open>treeInsert\<close> allocates it.\<close>

definition twoPages :: BNode where
  "twoPages = BNode (replicate (2 * BTREE_PAGE_SIZE) 0)"

text \<open>
  An internal node with one slot: child page 5 under the separator key \<open>"a"\<close>, with an
  empty value. As in \<open>leafA\<close>, byte 13 is shared by the offset word and the key length.
\<close>

definition nodeA :: BNode where
  "nodeA = BNode ([1, 0, 1, 0] @ [5, 0, 0, 0, 0, 0, 0, 0] @ [5, 1, 0, 0, 0, 97]
                  @ replicate 4078 0)"

text \<open>
  An oversized leaf in a two-page buffer: two records, the first with a key of 20 bytes
  and a value of 2500 bytes, the second with a key of 20 bytes and a value of 2600 bytes.
  The offsets are 2524 and 5148, and the records end at byte 5171.
\<close>

definition bigLeaf :: BNode where
  "bigLeaf = BNode ([2, 0, 2, 0] @ replicate 16 0 @ [220, 9, 28]
                    @ [20, 0, 196, 9] @ replicate 20 97 @ replicate 2500 0
                    @ [20, 0, 40, 10] @ replicate 20 98 @ replicate 2600 0
                    @ replicate 3021 0)"


section \<open>Properties\<close>

declare appendRange_pointers.simps [simp del]
declare appendRange_offsets.simps [simp del]
declare nodeLookUp_loop.simps [simp del]

lemmas read_defs =
  getNodeType_def getNumberOfKeys_def getPointer_def offsetPosition_def getOffset_def
  getKeyValuePosition_def getKey_def getValue_def nbytes_def sliceFrom_def sliceTo_def
  sliceRange_def Uint16_def Uint64_def HEADER_def

lemma bindE_simps [simp]:
  "bindE (Inl e) f = Inl e"
  "bindE (Inr x) f = f x"
  by (simp_all add: bindE_def)

lemma bindE_Inr_iff:
  "bindE m f = Inr y \<longleftrightarrow> (\<exists>x. m = Inr x \<and> f x = Inr y)"
  by (cases m) simp_all

lemma bindE_isl: "(\<And>x. m = Inr x \<Longrightarrow> isl (f x)) \<Longrightarrow> isl (bindE m f)"
  by (cases m) simp_all

subsection \<open>The guard of bnodeAppendRange\<close>

lemma guard_positive_start:
  fixes d n :: u16
  assumes "0 < d" and "unat d + unat n < 65536"
  shows "d + n > n"
proof -
  have "unat (d + n) = unat d + unat n"
    using assms(2) by (simp add: unat_add_lem [THEN iffD1])
  moreover have "0 < unat d"
    using assms(1) by (simp add: word_less_nat_alt)
  ultimately show ?thesis
    by (simp add: word_less_nat_alt)
qed

lemma bnodeAppendRange_dst_guard:
  "0 < dstNew \<Longrightarrow> unat dstNew + unat n < 65536
     \<Longrightarrow> bnodeAppendRange new old dstNew srcOld n = Inl AppendRangeDstPanic"
  by (simp add: bnodeAppendRange_def guard_positive_start)

lemma bnodeAppendRange_src_guard:
  "0 < srcOld \<Longrightarrow> unat srcOld + unat n < 65536
     \<Longrightarrow> bnodeAppendRange new old dstNew srcOld n = Inl AppendRangeDstPanic
       \<or> bnodeAppendRange new old dstNew srcOld n = Inl AppendRangeSrcPanic"
  by (simp add: bnodeAppendRange_def guard_positive_start)

text \<open>
  C7. A call of \<open>bnodeAppendRange\<close> whose destination start \<open>dstNew\<close> is positive (with
  \<open>dstNew + n\<close> below \<open>2^16\<close>), or whose source start \<open>srcOld\<close> is positive (with
  \<open>srcOld + n\<close> below \<open>2^16\<close>), stops at one of the two guards, before any byte is
  copied: the guards compare \<open>dstNew + n\<close> and \<open>srcOld + n\<close> with \<open>n\<close> itself. The key
  counts of the two nodes play no part, and neither does \<open>n = 0\<close>.
\<close>

theorem bnodeAppendRange_positive_start_panics:
  assumes "(0 < dstNew \<and> unat dstNew + unat n < 65536)
         \<or> (0 < srcOld \<and> unat srcOld + unat n < 65536)"
  shows "bnodeAppendRange new old dstNew srcOld n = Inl AppendRangeDstPanic
       \<or> bnodeAppendRange new old dstNew srcOld n = Inl AppendRangeSrcPanic"
  using assms bnodeAppendRange_dst_guard bnodeAppendRange_src_guard by blast

text \<open>
  The witness copies slot 0 of the one-key leaf to slot 1 of a two-key buffer, which is in
  bounds on both sides, and then copies nothing at all from slot 1.
\<close>

theorem bnodeAppendRange_positive_start_panics_witness:
  "getNumberOfKeys newLeaf2 = Inr 2 \<and> getNumberOfKeys leafA = Inr 1
   \<and> bnodeAppendRange newLeaf2 leafA 1 0 1 = Inl AppendRangeDstPanic
   \<and> bnodeAppendRange newLeaf2 leafA 0 1 0 = Inl AppendRangeSrcPanic"
proof -
  have "bnodeAppendRange newLeaf2 leafA 1 0 1 = Inl AppendRangeDstPanic
      \<or> bnodeAppendRange newLeaf2 leafA 1 0 1 = Inl AppendRangeSrcPanic"
    by (rule bnodeAppendRange_positive_start_panics) simp
  moreover have "bnodeAppendRange newLeaf2 leafA 0 1 0 = Inl AppendRangeDstPanic
      \<or> bnodeAppendRange newLeaf2 leafA 0 1 0 = Inl AppendRangeSrcPanic"
    by (rule bnodeAppendRange_positive_start_panics) simp
  ultimately show ?thesis
    by (simp add: bnodeAppendRange_def read_defs newLeaf2_def leafA_def)
qed

subsection \<open>The position of a record\<close>

text \<open>
  C1. The claim is that \<open>getKeyValuePosition i = HEADER + 8 n + 2 n + offset i\<close> and that
  \<open>nbytes\<close> is \<open>getKeyValuePosition n\<close>. The second half holds by definition. The first
  does not: the source adds \<open>2 n - 1\<close>, not \<open>2 n\<close>, so on every node whose key count and
  offset can be read the position is one byte below the claimed one. It is the last
  byte of the offset list, which \<open>offsetPosition\<close> lays out in \<open>2 n\<close> bytes.
\<close>

theorem getKeyValuePosition_one_byte_early:
  assumes "getNumberOfKeys bnode = Inr n" and "getOffset bnode i = Inr off"
  shows "getKeyValuePosition bnode i = Inr (HEADER + 8 * n + 2 * n + off - 1)
       \<and> getKeyValuePosition bnode i \<noteq> Inr (HEADER + 8 * n + 2 * n + off)
       \<and> nbytes bnode = getKeyValuePosition bnode n"
  using assms by (simp add: getKeyValuePosition_def nbytes_def)

theorem getKeyValuePosition_one_byte_early_witness:
  "getNumberOfKeys leafA = Inr 1 \<and> getOffset leafA 0 = Inr 0
   \<and> getKeyValuePosition leafA 0 = Inr 13
   \<and> HEADER + 8 * 1 + 2 * 1 + 0 = (14 :: u16)
   \<and> offsetPosition leafA 1 = Inr 12"
proof -
  have n: "getNumberOfKeys leafA = Inr 1"
    by (simp add: read_defs leafA_def)
  have off: "getOffset leafA 0 = Inr 0"
    by (simp add: getOffset_def)
  have pos: "offsetPosition leafA 1 = Inr 12"
    by (simp add: offsetPosition_def n HEADER_def)
  from getKeyValuePosition_one_byte_early [OF n off] n off pos show ?thesis
    by (simp add: HEADER_def)
qed

subsection \<open>Inserting into the empty leaf\<close>

lemma nodeLookUp_no_keys:
  assumes "getNumberOfKeys node = Inr 0"
  shows "nodeLookUp node key = Inr 0"
  using assms by (simp add: nodeLookUp_def nodeLookUp_loop.simps [of node key 0 1 0])

lemma getKey_no_keys:
  assumes "getNumberOfKeys node = Inr 0"
  shows "getKey node 0 = Inl GetKeyPanic"
  using assms by (simp add: getKey_def)

text \<open>
  C8. On a leaf with no key, \<open>treeInsert\<close> ends in the panic of \<open>getKey\<close>: the lookup
  returns 0, the leaf branch compares the key with \<open>getKey 0\<close>, and \<open>getKey\<close> rejects
  index 0 because it is not below the key count 0. The page store is not touched. This
  holds at every depth allowance that lets the call start at all.
\<close>

theorem treeInsert_empty_leaf_panics:
  assumes "getNodeType node = Inr BNODE_LEAF" and "getNumberOfKeys node = Inr 0"
  shows "nodeLookUp node key = Inr 0
       \<and> getKey node 0 = Inl GetKeyPanic
       \<and> treeInsert (Suc fuel) tree st node key val = Some (Inl GetKeyPanic, st)"
  using assms by (simp add: nodeLookUp_no_keys getKey_no_keys)

theorem treeInsert_empty_leaf_panics_witness:
  "getNodeType emptyLeaf = Inr BNODE_LEAF \<and> getNumberOfKeys emptyLeaf = Inr 0
   \<and> treeInsert 1 nullTree ((), []) emptyLeaf [97] [49] = Some (Inl GetKeyPanic, ((), []))"
proof -
  have t: "getNodeType emptyLeaf = Inr BNODE_LEAF"
    by (simp add: read_defs emptyLeaf_def BNODE_LEAF_def)
  have n: "getNumberOfKeys emptyLeaf = Inr 0"
    by (simp add: read_defs emptyLeaf_def)
  from treeInsert_empty_leaf_panics [OF t n, of "[97]" 0 nullTree "((), [])" "[49]"] t n
  show ?thesis by simp
qed

subsection \<open>The callers of bnodeAppendRange\<close>

lemma unat_succ_u16:
  fixes i :: u16
  assumes "unat i < 65535"
  shows "unat (i + 1) = unat i + 1" and "0 < i + 1"
proof -
  show "unat (i + 1) = unat i + 1"
    using assms by (simp add: unat_word_ariths)
  then have "0 < unat (i + 1)" by simp
  then show "0 < i + 1"
    by (simp add: word_less_nat_alt)
qed

lemma leafInsert_last_guard:
  fixes index nkeys :: u16
  assumes "index \<le> nkeys" and "nkeys < 65535"
  shows "bnodeAppendRange new3 old (index + 1) index (nkeys - index) = Inl AppendRangeDstPanic"
proof -
  have le: "unat index \<le> unat nkeys"
    using assms(1) by (simp add: word_le_nat_alt)
  have lt: "unat nkeys < 65535"
    using assms(2) by (simp add: word_less_nat_alt)
  have s: "unat (index + 1) = unat index + 1" and p: "0 < index + 1"
    using unat_succ_u16 [of index] le lt by simp_all
  have d: "unat (nkeys - index) = unat nkeys - unat index"
    using assms(1) by (simp add: unat_sub)
  show ?thesis
    by (rule bnodeAppendRange_dst_guard [OF p]) (use s d le lt in simp)
qed

lemma leafInsert_unfold:
  assumes "getNumberOfKeys old = Inr nkeys"
  shows "leafInsert old new index key val =
     (case bindE (setHeaders new BNODE_LEAF (nkeys + 1)) (\<lambda>new1.
           bindE (bnodeAppendRange new1 old 0 0 index) (\<lambda>new2.
           bnodeAppendKV new2 0 key val index)) of
        Inl e \<Rightarrow> Inl e
      | Inr new3 \<Rightarrow> bnodeAppendRange new3 old (index + 1) index (nkeys - index))"
  using assms by (simp add: leafInsert_def bindE_def split: sum.splits)

text \<open>
  C4. The claim is that \<open>leafInsert\<close> at an index up to the key count returns the leaf with
  the new record in place. The source does not: its last step appends the tail of \<open>old\<close>
  at destination \<open>index + 1\<close>, which is positive, and the guard of \<open>bnodeAppendRange\<close>
  rejects that. For every leaf with fewer than 65535 keys and every index up to the key
  count the result is a panic: the one of an earlier step if there is one, and otherwise
  the destination guard's.
\<close>

theorem leafInsert_panics:
  assumes "getNumberOfKeys old = Inr nkeys" and "index \<le> nkeys" and "nkeys < 65535"
  shows "leafInsert old new index key val =
     (case bindE (setHeaders new BNODE_LEAF (nkeys + 1)) (\<lambda>new1.
           bindE (bnodeAppendRange new1 old 0 0 index) (\<lambda>new2.
           bnodeAppendKV new2 0 key val index)) of
        Inl e \<Rightarrow> Inl e
      | Inr new3 \<Rightarrow> Inl AppendRangeDstPanic)
    \<and> isl (leafInsert old new index key val)"
  using assms
  by (simp add: leafInsert_unfold leafInsert_last_guard split: sum.splits)

text \<open>Scenario B: the leaf \<open>[("a", "1")]\<close> and the record \<open>("b", "2")\<close> at index 1.\<close>

theorem leafInsert_panics_witness:
  "getNumberOfKeys leafA = Inr 1 \<and> getKey leafA 0 = Inr [97] \<and> getValue leafA 0 = Inr [49]
   \<and> isl (leafInsert leafA twoPages 1 [98] [50])"
proof -
  have n: "getNumberOfKeys leafA = Inr 1"
    by (simp add: read_defs leafA_def)
  have k: "getKey leafA 0 = Inr [97]" and v: "getValue leafA 0 = Inr [49]"
    by (simp_all add: read_defs leafA_def)
  have le: "(1 :: u16) \<le> 1" and lt: "(1 :: u16) < 65535"
    by simp_all
  from leafInsert_panics [OF n le lt, of twoPages "[98]" "[50]"]
  have "isl (leafInsert leafA twoPages 1 [98] [50])"
    by (rule conjunct2)
  with n k v show ?thesis
    by simp
qed

lemma nodeSplit2_last_guard:
  fixes nKeys :: u16
  assumes "unat nKeys \<le> 43689"
  shows "bnodeAppendRange right old 0 ((nKeys div 2) + 1) nKeys = Inl AppendRangeSrcPanic"
proof -
  have h: "unat (nKeys div 2) = unat nKeys div 2"
    by (simp add: unat_div)
  then have s: "unat (nKeys div 2 + 1) = unat nKeys div 2 + 1" and p: "0 < nKeys div 2 + 1"
    using unat_succ_u16 [of "nKeys div 2"] assms by simp_all
  have g: "(nKeys div 2) + 1 + nKeys > nKeys"
    by (rule guard_positive_start [OF p]) (use s assms in simp)
  show ?thesis
    using g by (simp add: bnodeAppendRange_def)
qed

lemma nodeSplit2_small:
  assumes "getNumberOfKeys old = Inr nKeys" and "unat nKeys \<le> 43689"
  shows "nodeSplit2 left right old =
     (case bindE (getNodeType old) (\<lambda>nodeType.
           bindE (setHeaders left nodeType (nKeys div 2)) (\<lambda>left1.
           bnodeAppendRange left1 old 0 0 (nKeys div 2))) of
        Inl e \<Rightarrow> Inl e
      | Inr left2 \<Rightarrow> Inl AppendRangeSrcPanic)"
  using assms
  by (simp add: nodeSplit2_def nodeSplit2_last_guard bindE_def split: sum.splits)

text \<open>
  C3. The claim is that \<open>nodeSplit2\<close> fills \<open>left\<close> with the keys \<open>[0, n/2)\<close> and \<open>right\<close>
  with the keys \<open>[n/2+1, n)\<close> and sets both headers. The source sets the header of \<open>left\<close>
  only, and its second append starts at source slot \<open>n/2 + 1\<close> with the count \<open>n\<close>: the
  source guard of \<open>bnodeAppendRange\<close> rejects that for every node with at most 43689 keys
  (beyond that \<open>n/2 + 1 + n\<close> wraps around). So no pair of fragments is returned.
\<close>

theorem nodeSplit2_panics:
  assumes "getNumberOfKeys old = Inr nKeys" and "unat nKeys \<le> 43689"
  shows "nodeSplit2 left right old =
     (case bindE (getNodeType old) (\<lambda>nodeType.
           bindE (setHeaders left nodeType (nKeys div 2)) (\<lambda>left1.
           bnodeAppendRange left1 old 0 0 (nKeys div 2))) of
        Inl e \<Rightarrow> Inl e
      | Inr left2 \<Rightarrow> Inl AppendRangeSrcPanic)
    \<and> isl (nodeSplit2 left right old)"
  using assms by (simp add: nodeSplit2_small split: sum.splits)

theorem nodeSplit2_panics_witness:
  "getNumberOfKeys bigLeaf = Inr 2 \<and> isl (nodeSplit2 twoPages twoPages bigLeaf)"
proof -
  have n: "getNumberOfKeys bigLeaf = Inr 2"
    by (simp add: read_defs bigLeaf_def)
  have small: "unat (2 :: u16) \<le> 43689"
    by simp
  from nodeSplit2_panics [OF n small, of twoPages twoPages] have "isl (nodeSplit2 twoPages twoPages bigLeaf)"
    by (rule conjunct2)
  with n show ?thesis
    by simp
qed

lemma nodeSplit3_fits:
  assumes "nbytes old = Inr sz" and "unat sz \<le> BTREE_PAGE_SIZE"
    and "BTREE_PAGE_SIZE \<le> length (data old)"
  shows "nodeSplit3 old = Inr (1, [BNode (take BTREE_PAGE_SIZE (data old)), BNode [], BNode []])"
  using assms by (simp add: nodeSplit3_def sliceTo_def)

text \<open>
  C2. The claim is that \<open>nodeSplit3\<close> turns an oversized node into two or three fragments
  that fit a page and hold all its keys. In the source the first thing done with an
  oversized node is \<open>nodeSplit2\<close>, which panics; so for every oversized node with at most
  43689 keys \<open>nodeSplit3\<close> returns no fragments at all. (A node that already fits is
  returned as the single fragment, cut to one page: \<open>nodeSplit3_fits\<close>.)
\<close>

theorem nodeSplit3_oversized_panics:
  assumes "nbytes old = Inr sz" and "BTREE_PAGE_SIZE < unat sz"
    and "getNumberOfKeys old = Inr nKeys" and "unat nKeys \<le> 43689"
  shows "isl (nodeSplit3 old)"
proof -
  have "isl (nodeSplit2 (BNode (replicate (2 * BTREE_PAGE_SIZE) 0))
               (BNode (replicate BTREE_PAGE_SIZE 0)) old)"
    using assms(3,4) by (simp add: nodeSplit2_small split: sum.splits)
  then obtain e where "nodeSplit2 (BNode (replicate (2 * BTREE_PAGE_SIZE) 0))
               (BNode (replicate BTREE_PAGE_SIZE 0)) old = Inl e"
    by (auto simp: isl_def)
  with assms(1,2) show ?thesis
    by (simp add: nodeSplit3_def)
qed

theorem nodeSplit3_oversized_panics_witness:
  "nbytes bigLeaf = Inr 5171 \<and> getNumberOfKeys bigLeaf = Inr 2
   \<and> getKey bigLeaf 0 = Inr (replicate 20 97) \<and> getKey bigLeaf 1 = Inr (replicate 20 98)
   \<and> isl (nodeSplit3 bigLeaf)"
proof -
  have n: "getNumberOfKeys bigLeaf = Inr 2"
    by (simp add: read_defs bigLeaf_def)
  have sz: "nbytes bigLeaf = Inr 5171"
    by (simp add: read_defs bigLeaf_def)
  have k0: "getKey bigLeaf 0 = Inr (replicate 20 97)"
    by (simp add: read_defs bigLeaf_def)
  have k1: "getKey bigLeaf 1 = Inr (replicate 20 98)"
    by (simp add: read_defs bigLeaf_def word_le_nat_alt word_less_nat_alt)
  have big: "BTREE_PAGE_SIZE < unat (5171 :: u16)"
    by (simp add: BTREE_PAGE_SIZE_def)
  have small: "unat (2 :: u16) \<le> 43689"
    by simp
  have "isl (nodeSplit3 bigLeaf)"
    by (rule nodeSplit3_oversized_panics [OF sz big n small])
  with n sz k0 k1 show ?thesis
    by simp
qed

lemma nodeReplaceKidN_last_guard:
  fixes idx nkeys :: u16
  assumes "idx < nkeys"
  shows "isl (bnodeAppendRange new3 old (idx + inc) (idx + 1) (nkeys - (idx + 1)))"
proof -
  have lt: "unat idx < unat nkeys"
    using assms by (simp add: word_less_nat_alt)
  have b: "unat nkeys < 65536"
    using unsigned_less [of nkeys, where 'a = nat] by simp
  have s: "unat (idx + 1) = unat idx + 1" and p: "0 < idx + 1"
    using unat_succ_u16 [of idx] lt b by simp_all
  have "idx + 1 \<le> nkeys"
    using s lt by (simp add: word_le_nat_alt)
  then have d: "unat (nkeys - (idx + 1)) = unat nkeys - unat (idx + 1)"
    by (simp add: unat_sub)
  have "unat (idx + 1) + unat (nkeys - (idx + 1)) < 65536"
    using s d lt b by simp
  from bnodeAppendRange_src_guard [OF p this, of new3 old "idx + inc"] show ?thesis
    by (auto simp: isl_def)
qed

text \<open>
  C6. The claim is that \<open>nodeReplaceKidN\<close> returns the node in which slot \<open>idx\<close> is
  replaced by the slots of the kids. In the source the last step appends the tail of
  \<open>old\<close> from source slot \<open>idx + 1\<close>, which is positive, and a guard of
  \<open>bnodeAppendRange\<close> rejects that: for every node and every slot \<open>idx\<close> below its key
  count the call ends in a panic, after the pages of the kids have been allocated.
\<close>

theorem nodeReplaceKidN_panics:
  assumes "getNumberOfKeys old = Inr nkeys" and "idx < nkeys"
  shows "isl (fst (nodeReplaceKidN tree st new old idx kids))"
proof (cases "bindE (setHeaders new BNODE_NODE (nkeys + of_nat (length kids) - 1)) (\<lambda>new1.
              bnodeAppendRange new1 old 0 0 idx)")
  case (Inl e)
  with assms(1) show ?thesis
    by (simp add: nodeReplaceKidN_def)
next
  case (Inr new2)
  obtain r2 st2 where l: "nodeReplaceKidN_loop tree st new2 idx kids 0 = (r2, st2)"
    by (cases "nodeReplaceKidN_loop tree st new2 idx kids 0")
  show ?thesis
  proof (cases r2)
    case (Inl e)
    with assms(1) Inr l show ?thesis
      by (simp add: nodeReplaceKidN_def)
  next
    case new3: (Inr new3)
    with assms(1) Inr l nodeReplaceKidN_last_guard [OF assms(2)] show ?thesis
      by (simp add: nodeReplaceKidN_def)
  qed
qed

theorem nodeReplaceKidN_panics_witness:
  "getNumberOfKeys nodeA = Inr 1 \<and> (0 :: u16) < 1
   \<and> isl (fst (nodeReplaceKidN nullTree ((), []) twoPages nodeA 0 [leafA]))"
proof -
  have n: "getNumberOfKeys nodeA = Inr 1"
    by (simp add: read_defs nodeA_def)
  have lt: "(0 :: u16) < 1"
    by simp
  from nodeReplaceKidN_panics [OF n lt] n lt show ?thesis
    by simp
qed

subsection \<open>The calls to the page store\<close>

lemma call_get_del_trace:
  "snd (call_del tree p (snd (call_get tree p st))) = snd st @ [Get p, Del p]"
  by (simp add: call_del_def call_get_def split: prod.splits)

lemma tail_append_guard:
  fixes idx nkeys :: u16
  assumes "idx < nkeys"
  shows "isl (bnodeAppendRange new3 old dst (idx + 1) (nkeys - (idx + 1)))"
proof -
  have lt: "unat idx < unat nkeys"
    using assms by (simp add: word_less_nat_alt)
  have b: "unat nkeys < 65536"
    using unsigned_less [of nkeys, where 'a = nat] by simp
  have s: "unat (idx + 1) = unat idx + 1" and p: "0 < idx + 1"
    using unat_succ_u16 [of idx] lt b by simp_all
  have "idx + 1 \<le> nkeys"
    using s lt by (simp add: word_le_nat_alt)
  then have d: "unat (nkeys - (idx + 1)) = unat nkeys - unat (idx + 1)"
    by (simp add: unat_sub)
  have "unat (idx + 1) + unat (nkeys - (idx + 1)) < 65536"
    using s d lt b by simp
  from bnodeAppendRange_src_guard [OF p this, of new3 old dst] show ?thesis
    by (auto simp: isl_def)
qed

lemma getKey_index_bound:
  assumes "getKey node idx = Inr k"
  shows "\<exists>nkeys. getNumberOfKeys node = Inr nkeys \<and> idx < nkeys"
proof (cases "getNumberOfKeys node")
  case (Inl e)
  with assms show ?thesis by (simp add: getKey_def)
next
  case (Inr nkeys)
  with assms have "\<not> nkeys \<le> idx"
    by (auto simp: getKey_def split: if_splits)
  with Inr show ?thesis by simp
qed

lemma leafUpdate_at_key_panics:
  assumes "getKey node idx = Inr k"
  shows "isl (leafUpdate node new idx key val)"
proof -
  from getKey_index_bound [OF assms] obtain nkeys where
    n: "getNumberOfKeys node = Inr nkeys" and lt: "idx < nkeys"
    by blast
  show ?thesis
    unfolding leafUpdate_def
    by (intro bindE_isl) (simp add: n tail_append_guard [OF lt])
qed

lemma leafInsert_after_key_panics:
  assumes "getKey node idx = Inr k"
  shows "isl (leafInsert node new (idx + 1) key val)"
proof -
  from getKey_index_bound [OF assms] obtain nkeys where
    n: "getNumberOfKeys node = Inr nkeys" and lt: "idx < nkeys"
    by blast
  show ?thesis
    unfolding leafInsert_def
    by (intro bindE_isl) (simp add: n tail_append_guard [OF lt])
qed

lemma treeInsert_leaf_panics:
  assumes "getNodeType node = Inr BNODE_LEAF"
  shows "\<exists>e. treeInsert (Suc fuel) tree st node key val = Some (Inl e, st)"
proof (cases "nodeLookUp node key")
  case (Inl e)
  then show ?thesis by simp
next
  case idx: (Inr index)
  show ?thesis
  proof (cases "getKey node index")
    case (Inl e)
    with idx assms show ?thesis by simp
  next
    case (Inr k)
    from leafUpdate_at_key_panics
           [OF Inr, where new = "BNode (replicate (2 * BTREE_PAGE_SIZE) 0)" and key = key
              and val = val]
         leafInsert_after_key_panics
           [OF Inr, where new = "BNode (replicate (2 * BTREE_PAGE_SIZE) 0)" and key = key
              and val = val]
    obtain e1 e2 where
      "leafUpdate node (BNode (replicate (2 * BTREE_PAGE_SIZE) 0)) index key val = Inl e1"
      "leafInsert node (BNode (replicate (2 * BTREE_PAGE_SIZE) 0)) (index + 1) key val = Inl e2"
      by (auto simp: isl_def)
    with idx assms Inr show ?thesis
      by (cases "key = k") (simp_all add: Let_def)
  qed
qed

lemma insert_returns_panic:
  "treeInsert fuel tree st node key val = Some (r, st')
     \<Longrightarrow> isl r \<and> (\<exists>ext. snd st' = snd st @ ext \<and> (\<forall>e \<in> set ext. \<forall>n q. e \<noteq> New n q))"
  "nodeInsert fuel tree st new node index key val = Some (r, st')
     \<Longrightarrow> isl r \<and> (\<exists>ext. snd st' = snd st @ ext \<and> (\<forall>e \<in> set ext. \<forall>n q. e \<noteq> New n q))"
proof (induction fuel tree st node key val and fuel tree st new node index key val
       arbitrary: r st' and r st' rule: treeInsert_nodeInsert.induct)
  case (1 tree st node key val)
  then show ?case by simp
next
  case (2 fuel tree st node key val)
  show ?case
  proof (cases "nodeLookUp node key")
    case (Inl e)
    with "2.prems" show ?thesis by auto
  next
    case idx: (Inr index)
    show ?thesis
    proof (cases "getNodeType node")
      case (Inl e)
      with "2.prems" idx show ?thesis by auto
    next
      case t: (Inr nodeType)
      consider (leaf) "nodeType = BNODE_LEAF"
        | (node) "nodeType \<noteq> BNODE_LEAF" "nodeType = BNODE_NODE"
        | (bad) "nodeType \<noteq> BNODE_LEAF" "nodeType \<noteq> BNODE_NODE"
        by blast
      then show ?thesis
      proof cases
        case leaf
        with t have "getNodeType node = Inr BNODE_LEAF" by simp
        from treeInsert_leaf_panics
               [OF this, where fuel = fuel and tree = tree and st = st and key = key
                  and val = val] "2.prems"
        show ?thesis by auto
      next
        case node
        with "2.prems" idx t
        have "nodeInsert fuel tree st (BNode (replicate (2 * BTREE_PAGE_SIZE) 0)) node index key val
              = Some (r, st')"
          by (simp add: Let_def del: nodeInsert.simps)
        from "2.IH" [OF refl idx t node this] show ?thesis .
      next
        case bad
        with "2.prems" idx t show ?thesis by (auto simp: Let_def)
      qed
    qed
  qed
next
  case (3 fuel tree st new node index key val)
  show ?case
  proof (cases "getPointer node index")
    case (Inl e)
    with "3.prems" show ?thesis by auto
  next
    case (Inr p)
    obtain child st1 where g: "call_get tree p st = (child, st1)"
      by (cases "call_get tree p st")
    have tr: "snd (call_del tree p st1) = snd st @ [Get p, Del p]"
      using call_get_del_trace [of tree p st] g by simp
    from "3.prems" Inr g obtain r1 st3 where
      ti: "treeInsert fuel tree (call_del tree p st1) child key val = Some (r1, st3)"
      by (auto split: option.splits)
    from "3.IH" [OF Inr g [symmetric] ti] tr obtain ext where
      r1: "isl r1" and e3: "snd st3 = snd st @ [Get p, Del p] @ ext"
      and nn: "\<forall>e \<in> set ext. \<forall>n q. e \<noteq> New n q"
      by auto
    from r1 obtain e where "r1 = Inl e" by (auto simp: isl_def)
    with "3.prems" Inr g ti have "r = Inl e" and "st' = st3" by simp_all
    with e3 nn show ?thesis by auto
  qed
qed

text \<open>
  C9. The claim is that \<open>nodeInsert\<close> fetches the child, releases its id, inserts into the
  child and then commits the replacement fragments with \<open>allocate\<close>. The source makes the
  first two calls in that order, but the insert into the child never returns a node: in a
  leaf both \<open>leafUpdate\<close> and \<open>leafInsert\<close> end in a guard of \<open>bnodeAppendRange\<close>, and an
  internal child hands the panic up. So \<open>nodeSplit3\<close> and \<open>nodeReplaceKidN\<close> are never
  reached. Whenever \<open>nodeInsert\<close> returns, it returns a panic, and the calls it has logged
  are \<open>get p\<close>, \<open>del p\<close> and then the calls of the recursive insert, none of them an
  allocation. When the child is a leaf the call does return, at every depth allowance from
  1 on, and its calls are exactly \<open>get p\<close> and \<open>del p\<close>: the id of the child has been
  released and no page replaces it.
\<close>

theorem nodeInsert_never_commits:
  assumes "getPointer node index = Inr p"
  shows "(\<forall>r st'. nodeInsert fuel tree st new node index key val = Some (r, st') \<longrightarrow>
            isl r \<and> (\<exists>rec. snd st' = snd st @ [Get p, Del p] @ rec
                          \<and> (\<forall>e \<in> set rec. \<forall>n q. e \<noteq> New n q)))
       \<and> (getNodeType (fst (call_get tree p st)) = Inr BNODE_LEAF \<longrightarrow>
            (\<exists>e st'. nodeInsert (Suc fuel) tree st new node index key val = Some (Inl e, st')
                    \<and> snd st' = snd st @ [Get p, Del p]))"
proof (intro conjI allI impI)
  fix r st'
  assume run: "nodeInsert fuel tree st new node index key val = Some (r, st')"
  obtain child st1 where g: "call_get tree p st = (child, st1)"
    by (cases "call_get tree p st")
  have tr: "snd (call_del tree p st1) = snd st @ [Get p, Del p]"
    using call_get_del_trace [of tree p st] g by simp
  from run assms g obtain r1 st3 where
    ti: "treeInsert fuel tree (call_del tree p st1) child key val = Some (r1, st3)"
    by (auto split: option.splits)
  from insert_returns_panic(1) [OF ti] tr obtain rec where
    r1: "isl r1" and e3: "snd st3 = snd st @ [Get p, Del p] @ rec"
    and nn: "\<forall>e \<in> set rec. \<forall>n q. e \<noteq> New n q"
    by auto
  from r1 obtain e where "r1 = Inl e" by (auto simp: isl_def)
  with run assms g ti have "r = Inl e" and "st' = st3" by simp_all
  with e3 nn show "isl r" and "\<exists>rec. snd st' = snd st @ [Get p, Del p] @ rec
                          \<and> (\<forall>e \<in> set rec. \<forall>n q. e \<noteq> New n q)"
    by auto
next
  assume leaf: "getNodeType (fst (call_get tree p st)) = Inr BNODE_LEAF"
  obtain child st1 where g: "call_get tree p st = (child, st1)"
    by (cases "call_get tree p st")
  have tr: "snd (call_del tree p st1) = snd st @ [Get p, Del p]"
    using call_get_del_trace [of tree p st] g by simp
  from leaf g have "getNodeType child = Inr BNODE_LEAF" by simp
  from treeInsert_leaf_panics
         [OF this, where fuel = fuel and tree = tree and st = "call_del tree p st1"
            and key = key and val = val]
  obtain e where "treeInsert (Suc fuel) tree (call_del tree p st1) child key val
                   = Some (Inl e, call_del tree p st1)"
    by blast
  with assms g have "nodeInsert (Suc fuel) tree st new node index key val
                   = Some (Inl e, call_del tree p st1)"
    by simp
  with tr show "\<exists>e st'. nodeInsert (Suc fuel) tree st new node index key val = Some (Inl e, st')
                    \<and> snd st' = snd st @ [Get p, Del p]"
    by blast
qed

text \<open>
  The internal node \<open>nodeA\<close> over the one-key leaf \<open>[("a", "1")]\<close>, and the record
  \<open>("b", "2")\<close>: page 5 is fetched and released, and the insert ends in a panic.
\<close>

theorem nodeInsert_never_commits_witness:
  "getPointer nodeA 0 = Inr 5
   \<and> getNodeType (fst (call_get leafTree 5 ((), []))) = Inr BNODE_LEAF
   \<and> (\<exists>e. nodeInsert 1 leafTree ((), []) twoPages nodeA 0 [98] [50]
            = Some (Inl e, ((), [Get 5, Del 5])))"
proof -
  have gp: "getPointer nodeA 0 = Inr 5"
    by (simp add: read_defs nodeA_def)
  have cg: "fst (call_get leafTree 5 ((), [])) = leafA"
    by (simp add: call_get_def leafTree_def)
  have t: "getNodeType leafA = Inr BNODE_LEAF"
    by (simp add: read_defs leafA_def BNODE_LEAF_def)
  from nodeInsert_never_commits
         [OF gp, where tree = leafTree and st = "((), [])" and fuel = 0 and new = twoPages
            and key = "[98]" and val = "[50]"] cg t
  obtain e st' where "nodeInsert (Suc 0) leafTree ((), []) twoPages nodeA 0 [98] [50]
      = Some (Inl e, st')" and "snd st' = [Get 5, Del 5]"
    by auto
  then have "nodeInsert 1 leafTree ((), []) twoPages nodeA 0 [98] [50]
      = Some (Inl e, ((), [Get 5, Del 5]))"
    by (cases st') simp
  with gp cg t show ?thesis
    by auto
qed

subsection \<open>The atomic file write\<close>







subsection \<open>Lookup\<close>

lemma Compare_gt_trans:
  "Compare a b \<le> 0 \<Longrightarrow> 0 < Compare a k \<Longrightarrow> 0 < Compare b k"
proof (induction a arbitrary: b k)
  case Nil
  then show ?case by (cases k) simp_all
next
  case (Cons x xs)
  show ?case
  proof (cases b)
    case Nil
    with Cons.prems show ?thesis by simp
  next
    case b: (Cons z zs)
    show ?thesis
    proof (cases k)
      case Nil
      with b show ?thesis by simp
    next
      case k: (Cons y ys)
      from Cons.prems Cons.IH [of zs ys] show ?thesis
        unfolding b k by (auto split: if_splits)
    qed
  qed
qed

lemma Compare_refl: "Compare a a = 0"
  by (induction a) simp_all

lemma upt_small: "[1..<3] = [1, 2]" "[2..<3] = [2]" "[Suc 0..<3] = [1, 2]" "[3..<3] = []"
  by (simp_all add: upt_rec)

lemma leafABC_keys:
  "getNumberOfKeys leafABC = Inr 3" "getKey leafABC 1 = Inr [98]" "getKey leafABC 2 = Inr [99]"
  by (simp_all add: read_defs leafABC_def word_le_nat_alt word_less_nat_alt)

lemma leafAZB_keys:
  "getNumberOfKeys leafAZB = Inr 3" "getKey leafAZB 1 = Inr [122]" "getKey leafAZB 2 = Inr [98]"
  by (simp_all add: read_defs leafAZB_def word_le_nat_alt word_less_nat_alt)

lemma leafABC_ascending: "keys_ascending leafABC"
  by (simp add: keys_ascending_def leafABC_keys upt_small)

lemma leafABC_lookups:
  "nodeLookUp leafABC [98] = Inr 1"
  "nodeLookUp leafABC [97, 97] = Inr 0"
  "nodeLookUp leafABC [122] = Inr 2"
  by (simp_all add: nodeLookUp_def leafABC_keys word_less_nat_alt
        nodeLookUp_loop.simps [of _ _ 3 1] nodeLookUp_loop.simps [of _ _ 3 2]
        nodeLookUp_loop.simps [of _ _ 3 3])

lemma nodeLookUp_loop_result:
  assumes "\<forall>j. unat i \<le> j \<and> j < unat nKeys \<longrightarrow> (\<exists>k. getKey node (of_nat j) = Inr k)"
  shows "\<exists>r. nodeLookUp_loop node key nKeys i found = Inr r \<and>
         ((r = found \<and> (nKeys \<le> i \<or> \<not> key_le node i key))
          \<or> (i \<le> r \<and> r < nKeys \<and> key_le node r key
              \<and> (unat r + 1 = unat nKeys \<or> \<not> key_le node (r + 1) key)))"
  using assms
proof (induction node key nKeys i found rule: nodeLookUp_loop.induct)
  case (1 node key nKeys i found)
  show ?case
  proof (cases "i < nKeys")
    case False
    then have "nodeLookUp_loop node key nKeys i found = Inr found"
      by (subst nodeLookUp_loop.simps) simp
    moreover from False have "nKeys \<le> i"
      by simp
    ultimately show ?thesis
      by blast
  next
    case True
    then have lt: "unat i < unat nKeys"
      by (simp add: word_less_nat_alt)
    have suc: "unat (i + 1) = unat i + 1"
      using lt unsigned_less [of nKeys, where 'a = nat] by (simp add: unat_word_ariths)
    have "\<exists>k. getKey node (of_nat (unat i)) = Inr k"
      using "1.prems" lt by blast
    then obtain k where k: "getKey node i = Inr k"
      by auto
    show ?thesis
    proof (cases "Compare k key \<le> 0")
      case le: True
      have rd: "\<forall>j. unat (i + 1) \<le> j \<and> j < unat nKeys \<longrightarrow> (\<exists>k. getKey node (of_nat j) = Inr k)"
        using "1.prems" suc by auto
      from "1.IH"(1) [OF True k refl le rd] obtain r where
        run: "nodeLookUp_loop node key nKeys (i + 1) i = Inr r" and
        alt: "(r = i \<and> (nKeys \<le> i + 1 \<or> \<not> key_le node (i + 1) key))
          \<or> (i + 1 \<le> r \<and> r < nKeys \<and> key_le node r key
              \<and> (unat r + 1 = unat nKeys \<or> \<not> key_le node (r + 1) key))"
        by blast
      have res: "nodeLookUp_loop node key nKeys i found = Inr r"
        using True k le run by (subst nodeLookUp_loop.simps) simp
      have kl: "key_le node i key"
        using k le by (simp add: key_le_def)
      from alt have "i \<le> r \<and> r < nKeys \<and> key_le node r key
              \<and> (unat r + 1 = unat nKeys \<or> \<not> key_le node (r + 1) key)"
      proof
        assume a: "r = i \<and> (nKeys \<le> i + 1 \<or> \<not> key_le node (i + 1) key)"
        have "nKeys \<le> i + 1 \<Longrightarrow> unat i + 1 = unat nKeys"
          using lt suc by (simp add: word_le_nat_alt)
        with a True kl show ?thesis by auto
      next
        assume b: "i + 1 \<le> r \<and> r < nKeys \<and> key_le node r key
              \<and> (unat r + 1 = unat nKeys \<or> \<not> key_le node (r + 1) key)"
        then have "i \<le> r"
          using suc by (simp add: word_le_nat_alt)
        with b show ?thesis by simp
      qed
      with res show ?thesis by blast
    next
      case gt: False
      have res: "nodeLookUp_loop node key nKeys i found = Inr found"
        using True k gt by (subst nodeLookUp_loop.simps) simp
      have "\<not> key_le node i key"
        using k gt by (simp add: key_le_def)
      with res show ?thesis by blast
    qed
  qed
qed


text \<open>
  C5. As stated, for every node, the claim fails: the loop stops at the first key that is
  greater than the target, so on a node whose keys are not in order it can return an index
  below the largest one whose key is at most the target. On \<open>leafAZB\<close> with the target
  \<open>"c"\<close> the lookup returns 0, although the key \<open>"b"\<close> at index 2 is at most \<open>"c"\<close>.
\<close>

theorem nodeLookUp_unsorted_counterexample:
  "getNumberOfKeys leafAZB = Inr 3
   \<and> getKey leafAZB 1 = Inr [122] \<and> getKey leafAZB 2 = Inr [98]
   \<and> Compare [98] [99] \<le> 0
   \<and> nodeLookUp leafAZB [99] = Inr 0
   \<and> \<not> lookup_spec leafAZB [99] 0"
  by (simp add: nodeLookUp_def leafAZB_keys nodeLookUp_loop.simps [of _ _ 3 1]
        word_less_nat_alt lookup_spec_def key_le_def upt_small)

text \<open>
  C5, amended. For every node whose keys at the indices \<open>1 .. keyCount - 1\<close> can be read
  and do not decrease, and for every target, the lookup returns the largest index in
  \<open>1 .. keyCount - 1\<close> whose key is at most the target, and 0 if there is none.
\<close>

theorem nodeLookUp_ascending:
  assumes "keys_ascending node"
  shows "\<exists>r. nodeLookUp node key = Inr r \<and> lookup_spec node key r"
proof -
  from assms obtain n where n: "getNumberOfKeys node = Inr n"
    by (auto simp: keys_ascending_def split: sum.splits)
  have asc: "\<exists>a b. getKey node (of_nat i) = Inr a \<and> getKey node (of_nat j) = Inr b
                 \<and> Compare a b \<le> 0"
    if "1 \<le> i" and "i \<le> j" and "j < unat n" for i j
  proof -
    from that have "i \<in> set [1 ..< unat n]" and "j \<in> set [i ..< unat n]"
      by simp_all
    with assms n have "case (getKey node (of_nat i), getKey node (of_nat j)) of
               (Inr a, Inr b) \<Rightarrow> Compare a b \<le> 0
             | _ \<Rightarrow> False"
      by (simp add: keys_ascending_def list_all_iff)
    then show ?thesis
      by (cases "getKey node (of_nat i)"; cases "getKey node (of_nat j)") simp_all
  qed
  have up: "\<not> key_le node (of_nat j) key"
    if "1 \<le> i" and "i \<le> j" and "j < unat n" and "\<not> key_le node (of_nat i) key" for i j
  proof -
    from asc [OF that(1-3)] obtain a b where
      a: "getKey node (of_nat i) = Inr a" and b: "getKey node (of_nat j) = Inr b"
      and ab: "Compare a b \<le> 0"
      by blast
    from that(4) a have "0 < Compare a key"
      by (simp add: key_le_def)
    with ab have "0 < Compare b key"
      by (rule Compare_gt_trans)
    with b show ?thesis
      by (simp add: key_le_def)
  qed
  have rd: "\<forall>j. unat (1 :: u16) \<le> j \<and> j < unat n \<longrightarrow> (\<exists>k. getKey node (of_nat j) = Inr k)"
    using asc by (metis le_refl unat_1)
  from nodeLookUp_loop_result [OF rd, of key 0] obtain r where
    run: "nodeLookUp_loop node key n 1 0 = Inr r" and
    alt: "(r = 0 \<and> (n \<le> 1 \<or> \<not> key_le node 1 key))
          \<or> (1 \<le> r \<and> r < n \<and> key_le node r key
              \<and> (unat r + 1 = unat n \<or> \<not> key_le node (r + 1) key))"
    by blast
  have res: "nodeLookUp node key = Inr r"
    using n run by (simp add: nodeLookUp_def)
  from alt have "lookup_spec node key r"
  proof
    assume a: "r = 0 \<and> (n \<le> 1 \<or> \<not> key_le node 1 key)"
    have "\<not> key_le node (of_nat j) key" if "j \<in> set [Suc 0 ..< unat n]" for j
    proof -
      from that have j: "1 \<le> j" "j < unat n" by simp_all
      then have "\<not> n \<le> 1"
        by (simp add: word_le_nat_alt)
      with a have "\<not> key_le node (of_nat 1) key" by simp
      from up [OF _ j(1) j(2) this] show ?thesis by simp
    qed
    with a n show ?thesis
      by (simp add: lookup_spec_def list_all_iff)
  next
    assume b: "1 \<le> r \<and> r < n \<and> key_le node r key
              \<and> (unat r + 1 = unat n \<or> \<not> key_le node (r + 1) key)"
    have "\<not> key_le node (of_nat j) key" if "j \<in> set [Suc (unat r) ..< unat n]" for j
    proof -
      from that have j: "unat r + 1 \<le> j" "j < unat n" by simp_all
      with b have nk: "\<not> key_le node (r + 1) key" by auto
      have eq: "(of_nat (unat r + 1) :: u16) = r + 1"
        by simp
      have "\<not> key_le node (of_nat (unat r + 1)) key"
        unfolding eq by (rule nk)
      from up [OF _ j(1) j(2) this] show ?thesis by simp
    qed
    with b n show ?thesis
      by (simp add: lookup_spec_def list_all_iff)
  qed
  with res show ?thesis by blast
qed

text \<open>Scenario C: the lookups of \<open>"b"\<close>, \<open>"aa"\<close> and \<open>"z"\<close> in the leaf \<open>["a", "b", "c"]\<close>.\<close>

theorem nodeLookUp_ascending_witness:
  "keys_ascending leafABC
   \<and> getKey leafABC 1 = Inr [98] \<and> getKey leafABC 2 = Inr [99]
   \<and> nodeLookUp leafABC [98] = Inr 1 \<and> lookup_spec leafABC [98] 1
   \<and> nodeLookUp leafABC [97, 97] = Inr 0 \<and> lookup_spec leafABC [97, 97] 0
   \<and> nodeLookUp leafABC [122] = Inr 2 \<and> lookup_spec leafABC [122] 2"
proof -
  note asc = leafABC_ascending and l = leafABC_lookups
  from nodeLookUp_ascending [OF asc, of "[98]"] l(1) have s1: "lookup_spec leafABC [98] 1"
    by auto
  from nodeLookUp_ascending [OF asc, of "[97, 97]"] l(2)
  have s2: "lookup_spec leafABC [97, 97] 0"
    by auto
  from nodeLookUp_ascending [OF asc, of "[122]"] l(3) have s3: "lookup_spec leafABC [122] 2"
    by auto
  from asc leafABC_keys l s1 s2 s3 show ?thesis
    by simp
qed

end
